theory Spec2Isabelle
  imports Main "HOL-Library.Sublist"
begin

section \<open>Escaped run-length codec of session06/activity03.py\<close>

text \<open>
  A Python \<open>str\<close> is a sequence of code points. The model takes the strings whose code
  points are below 256: a \<^typ>\<open>char\<close> stands for the code point \<^term>\<open>of_char c :: nat\<close>,
  and a \<^typ>\<open>string\<close> for the Python string, one character per code point.
  The argument of both functions is a \<open>str\<close> by its type, so the \<open>TypeError\<close> branches
  cannot be taken. Every \<open>raise ValueError\<close> of the source is one constructor of
  \<open>error\<close>, named after the kind of failure its message reports.
\<close>

datatype error = EmptyInput | MissingHeader | DanglingEscape | InvalidEscape

subsection \<open>Library functions the source calls\<close>

text \<open>
  \<open>str.isdigit\<close> holds for the characters whose Unicode numeric type is Digit or Decimal.
  Below 256 these are the ASCII digits (48 to 57) and the superscript digits
  U+00B2, U+00B3 and U+00B9 (178, 179 and 185).
\<close>

definition isdigit :: "char \<Rightarrow> bool" where
  "isdigit ch \<longleftrightarrow>
     (let k = (of_char ch :: nat)
      in (48 \<le> k \<and> k \<le> 57) \<or> k = 178 \<or> k = 179 \<or> k = 185)"

text \<open>
  In the pattern \<open>[1-9]\d*\<close> the class \<open>\d\<close> matches the decimal digits (category Nd),
  which below 256 are the ASCII digits only, and \<open>[1-9]\<close> matches 49 to 57.
\<close>

definition re_digit :: "char \<Rightarrow> bool" where
  "re_digit ch \<longleftrightarrow> 48 \<le> (of_char ch :: nat) \<and> (of_char ch :: nat) \<le> 57"

definition re_1_9 :: "char \<Rightarrow> bool" where
  "re_1_9 ch \<longleftrightarrow> 49 \<le> (of_char ch :: nat) \<and> (of_char ch :: nat) \<le> 57"

text \<open>\<open>int(...)\<close> on a string of ASCII digits, and \<open>str(...)\<close> on a natural number.\<close>

definition py_int :: "string \<Rightarrow> nat" where
  "py_int ds = foldl (\<lambda>acc ch. 10 * acc + ((of_char ch :: nat) - 48)) 0 ds"

fun py_str :: "nat \<Rightarrow> string" where
  "py_str n =
     (if n < 10 then [char_of (48 + n)]
      else py_str (n div 10) @ [char_of (48 + n mod 10)])"

declare py_str.simps [simp del]

text \<open>\<open>x.startswith(p)\<close>.\<close>

definition startswith :: "string \<Rightarrow> string \<Rightarrow> bool" where
  "startswith x p \<longleftrightarrow> take (length p) x = p"

text \<open>
  \<open>_COUNT_RE.match(s, start)\<close>: the greedy match of \<open>[1-9]\d*\<close> anchored at index
  \<open>start\<close>; \<open>Some (group, end)\<close> when there is one, \<open>None\<close> otherwise.
\<close>

definition COUNT_RE_match :: "string \<Rightarrow> nat \<Rightarrow> (string \<times> nat) option" where
  "COUNT_RE_match s start =
     (if start < length s \<and> re_1_9 (s ! start)
      then (let g = s ! start # takeWhile re_digit (drop (Suc start) s)
            in Some (g, start + length g))
      else None)"

subsection \<open>Encoder\<close>

definition encode_token :: "char \<Rightarrow> string" where
  "encode_token ch =
     (if ch = CHR ''#'' then ''##''
      else if isdigit ch then CHR ''#'' # [ch]
      else [ch])"

text \<open>
  The \<open>for ch in text[1:]\<close> loop of \<open>rle_encode\<close>, on the state
  \<open>(out_parts, cur, cnt)\<close>.
\<close>

fun encode_loop :: "string \<Rightarrow> string list \<Rightarrow> char \<Rightarrow> nat \<Rightarrow> string list \<times> char \<times> nat" where
  "encode_loop [] out_parts cur cnt = (out_parts, cur, cnt)"
| "encode_loop (ch # rest) out_parts cur cnt =
     (if ch = cur then encode_loop rest out_parts cur (cnt + 1)
      else encode_loop rest
             ((out_parts @ [encode_token cur]) @ (if cnt > 1 then [py_str cnt] else []))
             ch 1)"

definition rle_encode :: "string \<Rightarrow> error + string" where
  "rle_encode text =
     (if text = [] then Inl EmptyInput
      else (case encode_loop (tl text) [''##00''] (hd text) 1 of
              (out_parts, cur, cnt) \<Rightarrow>
                Inr (concat ((out_parts @ [encode_token cur])
                               @ (if cnt > 1 then [py_str cnt] else [])))))"

subsection \<open>Decoder\<close>

definition read_count :: "string \<Rightarrow> nat \<Rightarrow> nat \<times> nat" where
  "read_count s start =
     (case COUNT_RE_match s start of
        None \<Rightarrow> (1, start)
      | Some (g, e) \<Rightarrow> (py_int g, e))"

lemma read_count_advances: "read_count s start = (count, i') \<Longrightarrow> start \<le> i'"
  by (auto simp: read_count_def COUNT_RE_match_def Let_def split: if_splits)

text \<open>
  The \<open>while i < n\<close> loop of \<open>rle_decode\<close> over the body \<open>s\<close>, on the state
  \<open>(i, out)\<close>; a \<open>raise\<close> ends it with the error.
\<close>

function decode_loop :: "string \<Rightarrow> nat \<Rightarrow> string list \<Rightarrow> error + string list" where
  "decode_loop s i out =
     (if i < length s then
        (if s ! i = CHR ''#'' then
           (if i + 1 \<ge> length s then Inl DanglingEscape
            else if s ! (i + 1) = CHR ''#'' then
              (case read_count s (i + 2) of
                 (count, i') \<Rightarrow> decode_loop s i' (out @ [replicate count (CHR ''#'')]))
            else if isdigit (s ! (i + 1)) then
              (case read_count s (i + 2) of
                 (count, i') \<Rightarrow> decode_loop s i' (out @ [replicate count (s ! (i + 1))]))
            else Inl InvalidEscape)
         else
           (case read_count s (i + 1) of
              (count, i') \<Rightarrow> decode_loop s i' (out @ [replicate count (s ! i)])))
      else Inr out)"
  by pat_completeness auto
termination
  by (relation "measure (\<lambda>(s, i, out). length s - i)")
     (auto dest!: read_count_advances sym [of "(_, _)" "read_count _ _"])

declare decode_loop.simps [simp del]

definition rle_decode :: "string \<Rightarrow> error + string" where
  "rle_decode encoded =
     (if \<not> startswith encoded ''##00'' then Inl MissingHeader
      else (case decode_loop (drop 4 encoded) 0 [] of
              Inl e \<Rightarrow> Inl e
            | Inr out \<Rightarrow> Inr (concat out)))"

subsection \<open>Auxiliary notions for the proofs\<close>

text \<open>
  The digits the encoder appends after a token for a run of length \<open>cnt\<close>; the strings
  at whose start no \<open>\d\<close> can match; and the body the encoder writes for a run in
  progress (\<open>cnt\<close> copies of \<open>cur\<close> seen so far) followed by the text \<open>rest\<close>.
\<close>

definition count_digits :: "nat \<Rightarrow> string" where
  "count_digits cnt = (if cnt > 1 then py_str cnt else [])"

definition no_digit_ahead :: "string \<Rightarrow> bool" where
  "no_digit_ahead rest \<longleftrightarrow> (case rest of [] \<Rightarrow> True | ch # _ \<Rightarrow> \<not> re_digit ch)"

fun runs_body :: "char \<Rightarrow> nat \<Rightarrow> string \<Rightarrow> string" where
  "runs_body cur cnt [] = encode_token cur @ count_digits cnt"
| "runs_body cur cnt (ch # rest) =
     (if ch = cur then runs_body cur (cnt + 1) rest
      else encode_token cur @ count_digits cnt @ runs_body ch 1 rest)"

section \<open>Decimal numerals\<close>

lemma of_char_digit: "k < 10 \<Longrightarrow> (of_char (char_of (48 + k :: nat)) :: nat) = 48 + k"
  by simp

lemma py_str_digits: "\<forall>ch \<in> set (py_str n). re_digit ch"
proof (induction n rule: py_str.induct)
  case (1 n)
  show ?case
  proof (cases "n < 10")
    case True
    then show ?thesis by (subst py_str.simps) (simp add: re_digit_def)
  next
    case False
    have "n mod 10 < 10" by simp
    then have "re_digit (char_of (48 + n mod 10))"
      unfolding re_digit_def by (simp only: of_char_digit) simp
    with False 1 show ?thesis by (subst py_str.simps) simp
  qed
qed

lemma py_str_nonempty: "py_str n \<noteq> []"
  by (subst py_str.simps) simp

lemma py_str_hd: "0 < n \<Longrightarrow> re_1_9 (hd (py_str n))"
proof (induction n rule: py_str.induct)
  case (1 n)
  show ?case
  proof (cases "n < 10")
    case True
    with 1(2) show ?thesis by (subst py_str.simps) (simp add: re_1_9_def)
  next
    case False
    then have "0 < n div 10" by simp
    with False 1 have "re_1_9 (hd (py_str (n div 10)))" by simp
    with False show ?thesis
      by (subst py_str.simps) (simp add: py_str_nonempty)
  qed
qed

lemma py_int_snoc: "py_int (ds @ [ch]) = 10 * py_int ds + ((of_char ch :: nat) - 48)"
  by (simp add: py_int_def)

lemma py_int_py_str: "py_int (py_str n) = n"
proof (induction n rule: py_str.induct)
  case (1 n)
  show ?case
  proof (cases "n < 10")
    case True
    then show ?thesis by (subst py_str.simps) (simp add: py_int_def)
  next
    case False
    have "n mod 10 < 10" by simp
    then have "(of_char (char_of (48 + n mod 10)) :: nat) - 48 = n mod 10"
      by (simp only: of_char_digit diff_add_inverse)
    moreover from False have "py_str n = py_str (n div 10) @ [char_of (48 + n mod 10)]"
      by (subst py_str.simps) simp
    ultimately show ?thesis
      using False 1 by (simp add: py_int_snoc)
  qed
qed

section \<open>The decoder loop\<close>

lemma re_1_9_digit: "re_1_9 ch \<Longrightarrow> re_digit ch"
  by (simp add: re_1_9_def re_digit_def)

lemma takeWhile_digits_ahead:
  "\<forall>ch \<in> set ds. re_digit ch \<Longrightarrow> no_digit_ahead rest \<Longrightarrow>
   takeWhile re_digit (ds @ rest) = ds"
  by (cases rest) (simp_all add: no_digit_ahead_def)

text \<open>The loop at index \<open>i\<close> depends only on the body from \<open>i\<close> on.\<close>

lemma read_count_shift:
  "read_count (p @ s) (length p + k) =
     (case read_count s k of (count, e) \<Rightarrow> (count, length p + e))"
  by (simp add: read_count_def COUNT_RE_match_def Let_def nth_append)

lemma read_count_count_digits:
  assumes "1 \<le> cnt" and "no_digit_ahead rest"
  shows "read_count (count_digits cnt @ rest) 0 = (cnt, length (count_digits cnt))"
proof (cases "cnt > 1")
  case False
  with assms(1) have "cnt = 1" by simp
  with assms(2) show ?thesis
    by (cases rest)
       (auto simp: count_digits_def read_count_def COUNT_RE_match_def no_digit_ahead_def
             dest: re_1_9_digit)
next
  case True
  obtain d ds where ds: "py_str cnt = d # ds"
    using py_str_nonempty [of cnt] by (cases "py_str cnt") auto
  from True py_str_hd [of cnt] ds have d: "re_1_9 d" by simp
  from py_str_digits [of cnt] ds have "\<forall>ch \<in> set ds. re_digit ch" by simp
  then have tw: "takeWhile re_digit (ds @ rest) = ds"
    using assms(2) by (rule takeWhile_digits_ahead)
  from py_int_py_str [of cnt] ds have "py_int (d # ds) = cnt" by simp
  with True ds d tw show ?thesis
    by (simp add: count_digits_def read_count_def COUNT_RE_match_def)
qed

lemma decode_loop_shift:
  "decode_loop (p @ s) (length p + i) out = decode_loop s i out"
proof (induction s i out rule: decode_loop.induct)
  case (1 s i out)
  note IH = this
  obtain c1 e1 where r1: "read_count s (i + 1) = (c1, e1)" by (cases "read_count s (i + 1)")
  obtain c2 e2 where r2: "read_count s (i + 2) = (c2, e2)" by (cases "read_count s (i + 2)")
  have s1: "read_count (p @ s) (length p + i + 1) = (c1, length p + e1)"
    using read_count_shift [of p s "i + 1"] r1 by (simp add: add.assoc)
  have s2: "read_count (p @ s) (length p + i + 2) = (c2, length p + e2)"
    using read_count_shift [of p s "i + 2"] r2 by (simp add: add.assoc)
  show ?case
    apply (subst decode_loop.simps [of "p @ s" "length p + i" out])
    apply (subst decode_loop.simps [of s i out])
    using IH r1 r2 s1 s2
    apply (simp add: nth_append add.assoc)
    done
qed

lemma isdigit_not_hash: "\<not> isdigit (CHR ''#'')"
  by (simp add: isdigit_def)

lemma re_digit_isdigit: "re_digit ch \<Longrightarrow> isdigit ch"
  by (simp add: re_digit_def isdigit_def)

lemma hash_not_re_digit: "\<not> re_digit (CHR ''#'')"
  by (simp add: re_digit_def)

text \<open>One token, as the encoder writes it, is read back as one run.\<close>

lemma decode_loop_token:
  assumes cnt: "1 \<le> cnt" and rest: "no_digit_ahead rest"
  shows "decode_loop (encode_token c @ count_digits cnt @ rest) 0 out =
         decode_loop rest 0 (out @ [replicate cnt c])"
proof -
  let ?tok = "encode_token c"
  let ?s = "?tok @ count_digits cnt @ rest"
  have rc: "read_count ?s (length ?tok) = (cnt, length (?tok @ count_digits cnt))"
    using read_count_shift [of ?tok "count_digits cnt @ rest" 0]
          read_count_count_digits [OF cnt rest]
    by simp
  have sh: "decode_loop ?s (length (?tok @ count_digits cnt)) (out @ [replicate cnt c]) =
            decode_loop rest 0 (out @ [replicate cnt c])"
    using decode_loop_shift [of "?tok @ count_digits cnt" rest 0] by simp
  have "decode_loop ?s 0 out =
        decode_loop ?s (length (?tok @ count_digits cnt)) (out @ [replicate cnt c])"
  proof (cases "c = CHR ''#''")
    case True
    with rc show ?thesis
      by (subst decode_loop.simps) (simp add: encode_token_def)
  next
    case False
    show ?thesis
    proof (cases "isdigit c")
      case True
      with False rc show ?thesis
        by (subst decode_loop.simps) (simp add: encode_token_def)
    next
      case nd: False
      with False rc show ?thesis
        by (subst decode_loop.simps) (simp add: encode_token_def)
    qed
  qed
  with sh show ?thesis by simp
qed

text \<open>
  A body that decodes without error is decoded in the same way when more text follows
  it, as long as that text does not begin with a digit that would extend a count.
\<close>

lemma takeWhile_digits_stop:
  "no_digit_ahead rest \<Longrightarrow> takeWhile re_digit (xs @ rest) = takeWhile re_digit xs"
  by (induction xs) (auto simp: no_digit_ahead_def split: list.splits)

lemma read_count_append:
  assumes "k \<le> length pre" and "no_digit_ahead rest"
  shows "read_count (pre @ rest) k = read_count pre k"
proof (cases "k < length pre")
  case True
  then have "drop (Suc k) (pre @ rest) = drop (Suc k) pre @ rest" by simp
  with True takeWhile_digits_stop [OF assms(2), of "drop (Suc k) pre"] show ?thesis
    by (simp add: read_count_def COUNT_RE_match_def nth_append)
next
  case False
  with assms(1) have "k = length pre" by simp
  with assms(2) show ?thesis
    by (cases rest)
       (auto simp: read_count_def COUNT_RE_match_def no_digit_ahead_def dest: re_1_9_digit)
qed

lemma read_count_in_range:
  "read_count s k = (count, e) \<Longrightarrow> k \<le> length s \<Longrightarrow> e \<le> length s"
proof -
  assume rc: "read_count s k = (count, e)" and k: "k \<le> length s"
  have "length (takeWhile re_digit (drop (Suc k) s)) \<le> length (drop (Suc k) s)"
    by (rule length_takeWhile_le)
  with rc k show ?thesis
    by (auto simp: read_count_def COUNT_RE_match_def Let_def split: if_splits)
qed

lemma decode_loop_append:
  "decode_loop pre i acc = Inr parts \<Longrightarrow> i \<le> length pre \<Longrightarrow> no_digit_ahead rest \<Longrightarrow>
   decode_loop (pre @ rest) i acc = decode_loop rest 0 parts"
proof (induction pre i acc rule: decode_loop.induct)
  case (1 s i out)
  note IH = "1.IH" and res = "1.prems"(1) and le = "1.prems"(2) and nd = "1.prems"(3)
  show ?case
  proof (cases "i < length s")
    case False
    with le have i: "i = length s" by simp
    with res have "parts = out" by (simp add: decode_loop.simps [of s])
    with i decode_loop_shift [of s rest 0 out] show ?thesis by simp
  next
    case True
    obtain c1 e1 where r1: "read_count s (i + 1) = (c1, e1)" by (cases "read_count s (i + 1)")
    from True nd have a1: "read_count (s @ rest) (i + 1) = (c1, e1)"
      using read_count_append [of "i + 1" s rest] r1 by simp
    from True r1 have l1: "e1 \<le> length s" by (auto dest: read_count_in_range)
    show ?thesis
    proof (cases "s ! i = CHR ''#''")
      case False
      from res True False r1
      have "decode_loop s e1 (out @ [replicate c1 (s ! i)]) = Inr parts"
        by (simp add: decode_loop.simps [of s i])
      with IH(3) [OF True False r1 [symmetric] _ l1 nd]
      have "decode_loop (s @ rest) e1 (out @ [replicate c1 (s ! i)]) = decode_loop rest 0 parts"
        by simp
      with True False a1 show ?thesis
        by (simp add: decode_loop.simps [of "s @ rest" i] nth_append)
    next
      case hash: True
      from res True hash have n1: "\<not> length s \<le> i + 1"
        by (auto simp: decode_loop.simps [of s i] split: if_splits)
      obtain c2 e2 where r2: "read_count s (i + 2) = (c2, e2)" by (cases "read_count s (i + 2)")
      from n1 nd have a2: "read_count (s @ rest) (i + 2) = (c2, e2)"
        using read_count_append [of "i + 2" s rest] r2 by simp
      from n1 r2 have l2: "e2 \<le> length s" by (auto dest: read_count_in_range)
      show ?thesis
      proof (cases "s ! (i + 1) = CHR ''#''")
        case h2: True
        from res True hash n1 h2 r2
        have "decode_loop s e2 (out @ [replicate c2 (CHR ''#'')]) = Inr parts"
          by (simp add: decode_loop.simps [of s i])
        with IH(1) [OF True hash n1 h2 r2 [symmetric] _ l2 nd]
        have "decode_loop (s @ rest) e2 (out @ [replicate c2 (CHR ''#'')]) =
              decode_loop rest 0 parts"
          by simp
        with True hash n1 h2 a2 show ?thesis
          by (simp add: decode_loop.simps [of "s @ rest" i] nth_append)
      next
        case nh2: False
        from res True hash n1 nh2 have dg: "isdigit (s ! (i + 1))"
          by (auto simp: decode_loop.simps [of s i] split: if_splits)
        from res True hash n1 nh2 dg r2
        have "decode_loop s e2 (out @ [replicate c2 (s ! (i + 1))]) = Inr parts"
          by (simp add: decode_loop.simps [of s i])
        with IH(2) [OF True hash n1 nh2 dg r2 [symmetric] _ l2 nd]
        have "decode_loop (s @ rest) e2 (out @ [replicate c2 (s ! (i + 1))]) =
              decode_loop rest 0 parts"
          by simp
        with True hash n1 nh2 dg a2 show ?thesis
          by (simp add: decode_loop.simps [of "s @ rest" i] nth_append)
      qed
    qed
  qed
qed

lemma rle_decode_body:
  "rle_decode (''##00'' @ body) =
     (case decode_loop body 0 [] of Inl e \<Rightarrow> Inl e | Inr parts \<Rightarrow> Inr (concat parts))"
  by (simp add: rle_decode_def startswith_def)

lemma rle_decode_body_Inr:
  "rle_decode (''##00'' @ body) = Inr text \<Longrightarrow>
   \<exists>parts. decode_loop body 0 [] = Inr parts \<and> concat parts = text"
  unfolding rle_decode_body by (auto split: sum.splits)

section \<open>The encoder loop\<close>

text \<open>What the loop and the final run of \<open>rle_encode\<close> write is \<open>runs_body\<close>.\<close>

lemma encode_loop_runs_body:
  "(case encode_loop rest out_parts cur cnt of
      (out_parts', cur', cnt') \<Rightarrow>
        concat ((out_parts' @ [encode_token cur']) @ (if cnt' > 1 then [py_str cnt'] else [])))
   = concat out_parts @ runs_body cur cnt rest"
  by (induction rest arbitrary: out_parts cur cnt) (simp_all add: count_digits_def)

lemma rle_encode_runs_body:
  "text \<noteq> [] \<Longrightarrow> rle_encode text = Inr (''##00'' @ runs_body (hd text) 1 (tl text))"
  using encode_loop_runs_body [of "tl text" "[''##00'']" "hd text" 1]
  by (auto simp: rle_encode_def split: prod.splits)

lemma encode_token_no_digit_ahead: "no_digit_ahead (encode_token c @ rest)"
  by (auto simp: encode_token_def no_digit_ahead_def hash_not_re_digit dest: re_digit_isdigit)

lemma runs_body_no_digit_ahead: "no_digit_ahead (runs_body cur cnt rest)"
  by (induction rest arbitrary: cnt) (simp_all add: encode_token_no_digit_ahead)

lemma decode_loop_runs_body:
  "1 \<le> cnt \<Longrightarrow>
   \<exists>parts. decode_loop (runs_body cur cnt rest) 0 out = Inr parts \<and>
           concat parts = concat out @ replicate cnt cur @ rest"
proof (induction rest arbitrary: cur cnt out)
  case Nil
  have "no_digit_ahead []" by (simp add: no_digit_ahead_def)
  from decode_loop_token [OF Nil this, of cur out]
  show ?case by (simp add: decode_loop.simps [of "[]"])
next
  case (Cons ch rest)
  show ?case
  proof (cases "ch = cur")
    case True
    from Cons.IH [of "cnt + 1" cur out] True show ?thesis
      by (simp add: replicate_app_Cons_same)
  next
    case False
    from Cons.IH [of 1 ch "out @ [replicate cnt cur]"]
         decode_loop_token [OF Cons.prems runs_body_no_digit_ahead, of cur ch 1 rest out]
         False
    show ?thesis by simp
  qed
qed

lemma runs_body_singletons:
  "distinct_adj (cur # rest) \<Longrightarrow> runs_body cur 1 rest = concat (map encode_token (cur # rest))"
proof (induction rest arbitrary: cur)
  case Nil
  show ?case by (simp add: count_digits_def)
next
  case (Cons ch rest)
  from Cons.prems have "ch \<noteq> cur" and "distinct_adj (ch # rest)" by auto
  with Cons.IH [of ch] show ?case by (simp add: count_digits_def)
qed

section \<open>Round trip\<close>

text \<open>
  C1. Round-trip law: for every non-empty string \<open>text\<close>, over any characters (digits,
  \<open>#\<close> and whitespace included), \<open>rle_encode\<close> returns a stream and \<open>rle_decode\<close>
  maps that stream back to \<open>text\<close>, character for character.
\<close>

theorem rle_round_trip:
  assumes "text \<noteq> []"
  shows "\<exists>encoded. rle_encode text = Inr encoded \<and> rle_decode encoded = Inr text"
proof -
  from decode_loop_runs_body [of 1 "hd text" "tl text" "[]"]
  obtain parts where p: "decode_loop (runs_body (hd text) 1 (tl text)) 0 [] = Inr parts"
    and c: "concat parts = [hd text] @ tl text" by auto
  from c assms have "concat parts = text" by simp
  with p rle_encode_runs_body [OF assms] show ?thesis
    by (simp add: rle_decode_def startswith_def)
qed

theorem rle_round_trip_witness:
  "''AAAAAAAAAAAA#55 7'' \<noteq> [] \<and>
   rle_encode ''AAAAAAAAAAAA#55 7'' = Inr ''##00A12###52 #7'' \<and>
   rle_decode ''##00A12###52 #7'' = Inr ''AAAAAAAAAAAA#55 7''"
proof -
  have e: "rle_encode ''AAAAAAAAAAAA#55 7'' = Inr ''##00A12###52 #7''" by code_simp
  from rle_round_trip [of "''AAAAAAAAAAAA#55 7''"] e show ?thesis by simp
qed

section \<open>Counts with a leading zero\<close>

text \<open>
  C2. The decoder is to reject a count with a leading zero and a count of \<open>0\<close>; in
  particular \<open>##00A01\<close> is to fail. The code does not: at \<open>0\<close> the pattern \<open>[1-9]\d*\<close>
  finds no match, \<open>read_count\<close> answers with the count 1 as if no digit followed, and
  the loop goes on with \<open>0\<close> as a token of its own. So \<open>##00A01\<close> and \<open>##00A0\<close> are
  both accepted and decode to \<open>A0\<close>.
\<close>

theorem rle_decode_leading_zero_accepted:
  "COUNT_RE_match ''A01'' 1 = None \<and>
   read_count ''A01'' 1 = (1, 1) \<and>
   rle_decode ''##00A01'' = Inr ''A0'' \<and>
   rle_decode ''##00A0'' = Inr ''A0''"
  by code_simp

section \<open>Literal scenarios\<close>

text \<open>
  C3. The decode example is \<open>##00Z#10##2A\<close>, to be decoded to \<open>Z0##A\<close>. The code
  returns \<open>Z10##A\<close> on it: it reads \<open>Z\<close>, the escaped digit \<open>#1\<close>, then \<open>0\<close>, which
  cannot start a count, as a token of its own, then \<open>##2\<close> and \<open>A\<close>.
\<close>

theorem rle_decode_docstring_example:
  "rle_decode ''##00Z#10##2A'' = Inr ''Z10##A'' \<and>
   rle_decode ''##00Z#10##2A'' \<noteq> Inr ''Z0##A''"
  by code_simp

text \<open>
  C4. The literal encode scenarios: \<open>rle_encode\<close> maps \<open>A\<close> to \<open>##00A\<close>, \<open>AAAA\<close> to
  \<open>##00A4\<close>, \<open>#\<close> to \<open>##00##\<close>, \<open>###\<close> to \<open>##00##3\<close>, \<open>5\<close> to \<open>##00#5\<close>, \<open>555\<close> to
  \<open>##00#53\<close> and \<open>B12\<close> to \<open>##00B#1#2\<close>.
\<close>

theorem rle_encode_literal_scenarios:
  "rle_encode ''A'' = Inr ''##00A'' \<and>
   rle_encode ''AAAA'' = Inr ''##00A4'' \<and>
   rle_encode ''#'' = Inr ''##00##'' \<and>
   rle_encode ''###'' = Inr ''##00##3'' \<and>
   rle_encode ''5'' = Inr ''##00#5'' \<and>
   rle_encode ''555'' = Inr ''##00#53'' \<and>
   rle_encode ''B12'' = Inr ''##00B#1#2''"
  by code_simp

section \<open>Escape validation\<close>

text \<open>
  C5, as stated, fails in three ways. The error raised is that of the first bad escape
  the scan meets: the body \<open>#x#\<close> ends with an escape character, and the error is the
  invalid escape at \<open>#x\<close>. A \<open>#\<close> that is itself the escaped literal is not checked:
  \<open>##x\<close> decodes to \<open>#x\<close>, although its second \<open>#\<close> is followed by \<open>x\<close>. And the test
  after \<open>#\<close> is \<open>str.isdigit\<close>, which also holds for characters that are not decimal
  digits: a \<open>#\<close> followed by the superscript two (U+00B2) decodes to that character.
\<close>

theorem rle_decode_escape_counterexample:
  "rle_decode ''##00#x#'' = Inl InvalidEscape \<and>
   rle_decode ''##00##x'' = Inr ''#x'' \<and>
   CHR 0xB2 \<noteq> CHR ''#'' \<and> CHR 0xB2 \<notin> set ''0123456789'' \<and>
   rle_decode (''##00'' @ [CHR ''#'', CHR 0xB2]) = Inr [CHR 0xB2]"
  by code_simp

text \<open>
  C5, amended: let the body begin with a part \<open>pre\<close> that decodes without error, so that
  the scan reaches the character after \<open>pre\<close> at the start of a token. If that character
  is \<open>#\<close> and the stream ends there, \<open>rle_decode\<close> raises the dangling-escape error. If it
  is \<open>#\<close> followed by a character \<open>c\<close> that is not \<open>#\<close> and for which \<open>str.isdigit\<close> is
  false, \<open>rle_decode\<close> raises the invalid-escape error. In particular \<open>##00#\<close> fails with
  the first and \<open>##00#x\<close> with the second.
\<close>

theorem rle_decode_escape_errors:
  assumes "rle_decode (''##00'' @ pre) = Inr text"
  shows "rle_decode (''##00'' @ pre @ ''#'') = Inl DanglingEscape \<and>
         (c \<noteq> CHR ''#'' \<and> \<not> isdigit c \<longrightarrow>
            rle_decode (''##00'' @ pre @ CHR ''#'' # c # rest) = Inl InvalidEscape)"
proof -
  from assms obtain parts where p: "decode_loop pre 0 [] = Inr parts"
    using rle_decode_body_Inr by blast
  have nd: "no_digit_ahead (CHR ''#'' # r)" for r
    by (simp add: no_digit_ahead_def hash_not_re_digit)
  have "decode_loop (pre @ ''#'') 0 [] = decode_loop ''#'' 0 parts"
    using p nd by (intro decode_loop_append) simp_all
  also have "\<dots> = Inl DanglingEscape"
    by (simp add: decode_loop.simps [of "''#''" 0])
  finally have dangling: "rle_decode (''##00'' @ pre @ ''#'') = Inl DanglingEscape"
    unfolding rle_decode_body by simp
  have invalid: "rle_decode (''##00'' @ pre @ CHR ''#'' # c # rest) = Inl InvalidEscape"
    if c: "c \<noteq> CHR ''#''" "\<not> isdigit c"
  proof -
    have "decode_loop (pre @ CHR ''#'' # c # rest) 0 [] =
          decode_loop (CHR ''#'' # c # rest) 0 parts"
      using p nd by (intro decode_loop_append) simp_all
    also have "\<dots> = Inl InvalidEscape"
      using c by (simp add: decode_loop.simps [of "CHR ''#'' # c # rest" 0])
    finally show ?thesis unfolding rle_decode_body by simp
  qed
  from dangling invalid show ?thesis by blast
qed

theorem rle_decode_escape_errors_witness:
  "rle_decode (''##00'' @ []) = Inr [] \<and>
   CHR ''x'' \<noteq> CHR ''#'' \<and> \<not> isdigit (CHR ''x'') \<and>
   rle_decode ''##00#'' = Inl DanglingEscape \<and>
   rle_decode ''##00#x'' = Inl InvalidEscape \<and>
   rle_decode ''##00A3##'' = Inr ''AAA#'' \<and>
   rle_decode ''##00A3###'' = Inl DanglingEscape \<and>
   rle_decode ''##00A3###xy'' = Inl InvalidEscape"
proof -
  have h0: "rle_decode (''##00'' @ []) = Inr []" by code_simp
  have h1: "rle_decode (''##00'' @ ''A3##'') = Inr ''AAA#''" by code_simp
  have x: "CHR ''x'' \<noteq> CHR ''#'' \<and> \<not> isdigit (CHR ''x'')" by code_simp
  from rle_decode_escape_errors [OF h0, of "CHR ''x''" "[]"]
       rle_decode_escape_errors [OF h1, of "CHR ''x''" "''y''"] h0 h1 x
  show ?thesis by simp
qed

section \<open>Header and empty input\<close>

lemma startswith_prefix: "startswith x p \<longleftrightarrow> prefix p x"
proof
  assume "startswith x p"
  then have "x = p @ drop (length p) x"
    unfolding startswith_def by (metis append_take_drop_id)
  then show "prefix p x" by (rule prefixI)
next
  assume "prefix p x"
  then obtain r where "x = p @ r" by (auto elim: prefixE)
  then show "startswith x p" by (simp add: startswith_def)
qed

text \<open>
  C6. A string that does not begin with the four characters \<open>##00\<close> is rejected with
  the missing-header error; \<open>A4\<close> is such a string.
\<close>

theorem rle_decode_missing_header:
  "\<not> prefix ''##00'' encoded \<Longrightarrow> rle_decode encoded = Inl MissingHeader"
  by (simp add: rle_decode_def startswith_prefix)

theorem rle_decode_missing_header_witness:
  "\<not> prefix ''##00'' ''A4'' \<and> rle_decode ''A4'' = Inl MissingHeader"
  using rle_decode_missing_header [of "''A4''"] by simp

text \<open>
  C7. \<open>rle_encode\<close> raises exactly on the empty string, there with the empty-input error;
  on every other string it returns a result.
\<close>

theorem rle_encode_error_iff_empty:
  "rle_encode [] = Inl EmptyInput \<and>
   ((\<exists>e. rle_encode text = Inl e) \<longleftrightarrow> text = []) \<and>
   ((\<exists>encoded. rle_encode text = Inr encoded) \<longleftrightarrow> text \<noteq> [])"
  by (auto simp: rle_encode_def split: prod.splits)

theorem rle_encode_error_iff_empty_witness:
  "(\<exists>e. rle_encode [] = Inl e) \<and> (\<exists>encoded. rle_encode ''A'' = Inr encoded) \<and> ''A'' \<noteq> []"
  using rle_encode_error_iff_empty [of "[]"] rle_encode_error_iff_empty [of "''A''"]
  by simp

text \<open>
  C8. Header invariant: for every non-empty string, the result of \<open>rle_encode\<close> begins
  with the four characters \<open>##00\<close>.
\<close>

theorem rle_encode_header:
  "text \<noteq> [] \<Longrightarrow> \<exists>encoded. rle_encode text = Inr encoded \<and> prefix ''##00'' encoded"
  using rle_encode_runs_body [of "text"] by auto

theorem rle_encode_header_witness:
  "''BB7'' \<noteq> [] \<and> (\<exists>encoded. rle_encode ''BB7'' = Inr encoded \<and> prefix ''##00'' encoded)"
  using rle_encode_header [of "''BB7''"] by simp

section \<open>Singleton runs\<close>

text \<open>
  C9. For a non-empty string in which no character equals its immediate successor,
  \<open>rle_encode\<close> returns \<open>##00\<close> followed by the tokens of its characters, one
  \<open>encode_token\<close> per character in order (\<open>##\<close> for \<open>#\<close>, \<open>#\<close> and the digit for a digit
  in the sense of \<open>str.isdigit\<close>, the character itself otherwise), with no count after
  any of them.
\<close>

theorem rle_encode_singleton_runs:
  assumes "text \<noteq> []"
    and "\<forall>i. Suc i < length text \<longrightarrow> text ! i \<noteq> text ! Suc i"
  shows "rle_encode text = Inr (''##00'' @ concat (map encode_token text))"
proof -
  from assms(2) have "distinct_adj text" by (simp add: distinct_adj_conv_nth)
  with assms(1) have "distinct_adj (hd text # tl text)" by simp
  then have "runs_body (hd text) 1 (tl text) = concat (map encode_token (hd text # tl text))"
    by (rule runs_body_singletons)
  with assms(1) rle_encode_runs_body [OF assms(1)] show ?thesis by simp
qed

theorem rle_encode_singleton_runs_witness:
  "''B1#2 B'' \<noteq> [] \<and> distinct_adj ''B1#2 B'' \<and>
   concat (map encode_token ''B1#2 B'') = ''B#1###2 B'' \<and>
   rle_encode ''B1#2 B'' = Inr ''##00B#1###2 B''"
proof -
  have d: "distinct_adj ''B1#2 B''" by simp
  then have h: "\<forall>i. Suc i < length ''B1#2 B'' \<longrightarrow> ''B1#2 B'' ! i \<noteq> ''B1#2 B'' ! Suc i"
    unfolding distinct_adj_conv_nth .
  have t: "concat (map encode_token ''B1#2 B'') = ''B#1###2 B''" by code_simp
  have ne: "''B1#2 B'' \<noteq> []" by simp
  from rle_encode_singleton_runs [OF ne h] d t show ?thesis by simp
qed

section \<open>Empty body\<close>

text \<open>
  C10. A stream that is only the header, with an empty body, is accepted:
  \<open>rle_decode\<close> returns the empty string on \<open>##00\<close>.
\<close>

theorem rle_decode_header_only: "rle_decode ''##00'' = Inr []"
  by code_simp

end
